theory Spec2Isabelle
  imports Complex_Main "HOL-Library.Log_Nat"
begin

section \<open>Text\<close>

text \<open>
  A JavaScript string is a sequence of UTF-16 code units. A code unit is modelled by its
  number, so that the byte-order mark (U+FEFF) and the Unicode line separators (U+2028,
  U+2029) can be written down; \<open>asc\<close> turns an ASCII literal into code units.
\<close>

type_synonym jstring = "nat list"

definition asc :: "string \<Rightarrow> jstring" where
  "asc s = map of_char s"

abbreviation TAB :: nat where "TAB \<equiv> 9"
abbreviation LF :: nat where "LF \<equiv> 10"
abbreviation CR :: nat where "CR \<equiv> 13"
abbreviation DQ :: nat where "DQ \<equiv> 34"
abbreviation BSL :: nat where "BSL \<equiv> 92"
abbreviation BOM :: nat where "BOM \<equiv> 65279"
abbreviation LSEP :: nat where "LSEP \<equiv> 8232"
abbreviation PSEP :: nat where "PSEP \<equiv> 8233"

text \<open>ECMAScript \<open>LineTerminator\<close>: what \<open>^\<close> and \<open>$\<close> look at under the \<open>m\<close> flag.\<close>

definition is_line_terminator :: "nat \<Rightarrow> bool" where
  "is_line_terminator c = (c = LF \<or> c = CR \<or> c = LSEP \<or> c = PSEP)"

text \<open>
  The class \<open>\s\<close> of a regular expression, which is also what \<open>String.prototype.trim\<close>
  removes: ECMAScript \<open>WhiteSpace\<close> (tab, VT, FF, U+FEFF and the space separators) and
  \<open>LineTerminator\<close>.
\<close>

definition is_space :: "nat \<Rightarrow> bool" where
  "is_space c =
     (c = 9 \<or> c = 10 \<or> c = 11 \<or> c = 12 \<or> c = 13 \<or> c = 32 \<or> c = 160 \<or> c = 5760
      \<or> (8192 \<le> c \<and> c \<le> 8202) \<or> c = 8232 \<or> c = 8233 \<or> c = 8239 \<or> c = 8287
      \<or> c = 12288 \<or> c = 65279)"

definition starts_with :: "jstring \<Rightarrow> jstring \<Rightarrow> bool" where
  "starts_with p xs = (take (length p) xs = p)"

section \<open>Clean-up of the agent's reply (route.ts, lines 139-151)\<close>

text \<open>
  \<open>cleaned.replace(/\\n/g, '\n')\<close> and its two siblings: every backslash that is followed
  by the given letter is replaced, with the letter, by one control character; the scan goes
  on after the replaced pair.
\<close>

fun replace_escape :: "nat \<Rightarrow> nat \<Rightarrow> jstring \<Rightarrow> jstring" where
  "replace_escape l r (c # d # cs) =
     (if c = BSL \<and> d = l then r # replace_escape l r cs
      else c # replace_escape l r (d # cs))"
| "replace_escape l r cs = cs"

definition fence :: jstring where
  "fence = [96, 96, 96]"

text \<open>
  One match of \<open>```(?:json|JSON)?\s*\n?\<close> at the head of the text: the matched part and the
  rest. The tag and the white space are greedy and nothing after them can fail, so there
  is no backtracking; \<open>\n?\<close> finds a line feed only if \<open>\s*\<close> left one, which it never
  does.
\<close>

definition fence_open_match :: "jstring \<Rightarrow> (jstring \<times> jstring) option" where
  "fence_open_match xs =
     (if starts_with fence xs then
        (let after_fence = drop 3 xs;
             tag = (if starts_with (asc ''json'') after_fence then asc ''json''
                    else if starts_with (asc ''JSON'') after_fence then asc ''JSON'' else []);
             after_tag = drop (length tag) after_fence;
             ws = takeWhile is_space after_tag;
             after_ws = dropWhile is_space after_tag;
             nl = (if starts_with [LF] after_ws then [LF] else [])
         in Some (fence @ tag @ ws @ nl, drop (length nl) after_ws))
      else None)"

lemma length_dropWhile_drop_le:
  "length (drop k (dropWhile P (drop j xs))) \<le> length xs"
proof -
  have "length (drop k (dropWhile P (drop j xs))) \<le> length (dropWhile P (drop j xs))"
    by simp
  also have "\<dots> \<le> length (drop j xs)"
    by (rule length_dropWhile_le)
  also have "\<dots> \<le> length xs"
    by simp
  finally show ?thesis .
qed

lemma fence_open_match_shorter:
  assumes "fence_open_match xs = Some (m, rest)"
  shows "length rest < length xs"
proof -
  from assms have sw: "starts_with fence xs"
    by (simp add: fence_open_match_def split: if_splits)
  then have "3 \<le> length xs"
    by (auto simp: starts_with_def fence_def dest: arg_cong [where f = length])
  moreover from assms sw obtain k j
    where "rest = drop k (dropWhile is_space (drop j (drop 3 xs)))"
    by (auto simp: fence_open_match_def Let_def)
  then have "length rest \<le> length (drop 3 xs)"
    by (simp only: length_dropWhile_drop_le)
  ultimately show ?thesis
    by simp
qed

text \<open>
  \<open>cleaned.replace(/^```(?:json|JSON)?\s*\n?/gm, '')\<close>. With the flags \<open>g\<close> and \<open>m\<close> the
  pattern is tried at every position, and \<open>^\<close> holds at the start of the text and after
  every line terminator. The flag \<open>bol\<close> says whether the code unit before the current
  position is a line terminator (or there is none); after a match the search resumes
  behind it.
\<close>

function strip_open_fences :: "bool \<Rightarrow> jstring \<Rightarrow> jstring" where
  "strip_open_fences bol [] = []"
| "strip_open_fences bol (c # cs) =
     (case (if bol then fence_open_match (c # cs) else None) of
        Some (m, rest) \<Rightarrow> strip_open_fences (is_line_terminator (last m)) rest
      | None \<Rightarrow> c # strip_open_fences (is_line_terminator c) cs)"
  by pat_completeness auto
termination
  by (relation "measure (\<lambda>(bol, xs). length xs)")
     (auto split: if_splits dest: fence_open_match_shorter)

text \<open>
  For \<open>\n?```\s*$\<close>: the white space run \<open>ws\<close> after the fence is followed by a code unit
  that is not white space, so \<open>$\<close> can only hold in front of a line terminator of the run.
  \<open>\s*\<close> is greedy: the result is the longest prefix of the run that ends in front of one
  of its line terminators, if there is any.
\<close>

fun longest_to_eol :: "jstring \<Rightarrow> jstring option" where
  "longest_to_eol [] = None"
| "longest_to_eol (w # ws) =
     (case longest_to_eol ws of
        Some p \<Rightarrow> Some (w # p)
      | None \<Rightarrow> if is_line_terminator w then Some [] else None)"

text \<open>
  One match of \<open>\n?```\s*$\<close> at the head of the text. \<open>\n?\<close> takes a line feed when
  there is one (without it the fence cannot start here, so backtracking over it never
  helps); \<open>$\<close> holds at the end of the text and in front of a line terminator.
\<close>

definition fence_close_match :: "jstring \<Rightarrow> (jstring \<times> jstring) option" where
  "fence_close_match xs =
     (let nl = (if starts_with [LF] xs then [LF] else []);
          body = drop (length nl) xs
      in if starts_with fence body then
           (let after_fence = drop 3 body;
                ws = takeWhile is_space after_fence;
                after_ws = dropWhile is_space after_fence
            in if after_ws = [] then Some (xs, [])
               else (case longest_to_eol ws of
                       Some p \<Rightarrow> Some (nl @ fence @ p, drop (length p) after_fence)
                     | None \<Rightarrow> None))
         else None)"

lemma fence_close_match_shorter:
  assumes "fence_close_match xs = Some (m, rest)"
  shows "length rest < length xs"
proof -
  define nl where "nl = (if starts_with [LF] xs then [LF] else [])"
  from assms have sw: "starts_with fence (drop (length nl) xs)"
    by (simp add: fence_close_match_def nl_def Let_def split: if_splits)
  then have len: "3 \<le> length xs"
    by (auto simp: starts_with_def fence_def dest: arg_cong [where f = length])
  from assms sw have "rest = [] \<or> (\<exists>k. rest = drop k (drop 3 (drop (length nl) xs)))"
    by (auto simp: fence_close_match_def nl_def Let_def split: if_splits option.splits)
  with len show ?thesis
    by auto
qed

text \<open>\<open>cleaned.replace(/\n?```\s*$/gm, '')\<close>.\<close>

function strip_close_fences :: "jstring \<Rightarrow> jstring" where
  "strip_close_fences [] = []"
| "strip_close_fences (c # cs) =
     (case fence_close_match (c # cs) of
        Some (m, rest) \<Rightarrow> strip_close_fences rest
      | None \<Rightarrow> c # strip_close_fences cs)"
  by pat_completeness auto
termination
  by (relation "measure length") (auto dest: fence_close_match_shorter)

text \<open>\<open>cleaned.trim()\<close>.\<close>

definition trim :: "jstring \<Rightarrow> jstring" where
  "trim s = rev (dropWhile is_space (rev (dropWhile is_space s)))"

text \<open>Lines 139-151 as a whole: the text that the strategies work on.\<close>

definition normalize :: "jstring \<Rightarrow> jstring" where
  "normalize s =
     trim (strip_close_fences (strip_open_fences True
       (replace_escape 116 TAB (replace_escape 114 CR (replace_escape 110 LF s)))))"

section \<open>Values\<close>

text \<open>
  What a JavaScript variable of this program can hold. A number is kept as the text it was
  read from: the rounding of \<open>JSON.parse\<close> to an IEEE double is not modelled, and nothing
  below depends on the value of a number beyond its being zero or not. An object is the
  list of its own properties in the order in which \<open>JSON.stringify\<close> and \<open>for-in\<close> see them.
\<close>

datatype jsvalue =
    JUndefined
  | JNull
  | JBool bool
  | JNumber jstring
  | JString jstring
  | JArray "jsvalue list"
  | JObject "(jstring \<times> jsvalue) list"

definition is_digit :: "nat \<Rightarrow> bool" where
  "is_digit c = (48 \<le> c \<and> c \<le> 57)"

text \<open>The number read from a lexeme is zero iff it has no digit but 0 before its exponent.\<close>

definition number_is_zero :: "jstring \<Rightarrow> bool" where
  "number_is_zero n =
     list_all (\<lambda>c. c = 48 \<or> \<not> is_digit c) (takeWhile (\<lambda>c. c \<noteq> 101 \<and> c \<noteq> 69) n)"

text \<open>\<open>ToBoolean\<close>, as used by \<open>!x\<close>, \<open>x && y\<close>, \<open>x || y\<close> and \<open>if (x)\<close>.\<close>

fun truthy :: "jsvalue \<Rightarrow> bool" where
  "truthy JUndefined = False"
| "truthy JNull = False"
| "truthy (JBool b) = b"
| "truthy (JNumber n) = (\<not> number_is_zero n)"
| "truthy (JString s) = (s \<noteq> [])"
| "truthy (JArray xs) = True"
| "truthy (JObject ms) = True"

text \<open>\<open>typeof v === 'object'\<close>: true of \<open>null\<close> as well.\<close>

fun typeof_object :: "jsvalue \<Rightarrow> bool" where
  "typeof_object JNull = True"
| "typeof_object (JArray xs) = True"
| "typeof_object (JObject ms) = True"
| "typeof_object v = False"

fun typeof_string :: "jsvalue \<Rightarrow> bool" where
  "typeof_string (JString s) = True"
| "typeof_string v = False"

text \<open>
  \<open>v.k\<close> and \<open>v?.k\<close> for the property names this program reads (\<open>success\<close>, \<open>error\<close>,
  \<open>result\<close>, ...): none of them is defined on a prototype, so only an object's own
  properties answer. (\<open>v.k\<close> on \<open>null\<close> or \<open>undefined\<close> throws; the callers below check
  that first.)
\<close>

fun get_prop :: "jsvalue \<Rightarrow> jstring \<Rightarrow> jsvalue" where
  "get_prop (JObject ms) k = (case map_of ms k of Some v \<Rightarrow> v | None \<Rightarrow> JUndefined)"
| "get_prop v k = JUndefined"

text \<open>
  An array index is the canonical decimal form of an integer below \<open>2^32 - 1\<close>. The own
  properties of an object are ordered: array indices first, ascending, then the other
  keys in the order of their creation.
\<close>

definition decimal_value :: "jstring \<Rightarrow> nat" where
  "decimal_value ds = foldl (\<lambda>n d. 10 * n + (d - 48)) 0 ds"

definition array_index :: "jstring \<Rightarrow> nat option" where
  "array_index k =
     (if k \<noteq> [] \<and> list_all is_digit k \<and> (k = [48] \<or> hd k \<noteq> 48) \<and> length k \<le> 10
         \<and> decimal_value k < 4294967295
      then Some (decimal_value k) else None)"

definition index_below :: "nat \<Rightarrow> jstring \<times> jsvalue \<Rightarrow> bool" where
  "index_below n kv = (case array_index (fst kv) of Some i \<Rightarrow> i < n | None \<Rightarrow> False)"

text \<open>
  \<open>obj[k] = v\<close> on an ordinary object (and \<open>CreateDataProperty\<close> in \<open>JSON.parse\<close>): an
  existing property keeps its place and takes the new value, a new one goes to its place
  in the order.
\<close>

definition set_prop :: "jstring \<Rightarrow> jsvalue \<Rightarrow> (jstring \<times> jsvalue) list \<Rightarrow> (jstring \<times> jsvalue) list" where
  "set_prop k v ms =
     (if k \<in> fst ` set ms then map (\<lambda>(k', v'). if k' = k then (k', v) else (k', v')) ms
      else (case array_index k of
              None \<Rightarrow> ms @ [(k, v)]
            | Some n \<Rightarrow> takeWhile (index_below n) ms @ (k, v) # dropWhile (index_below n) ms))"

section \<open>JSON.parse\<close>

text \<open>
  The built-in strict parser, in two passes: the text becomes tokens, the tokens become a
  value. \<open>None\<close> is the \<open>SyntaxError\<close>.
\<close>

datatype token =
    TLBrace | TRBrace | TLBracket | TRBracket | TComma | TColon
  | TString jstring | TNumber jstring | TTrue | TFalse | TNull

definition is_json_ws :: "nat \<Rightarrow> bool" where
  "is_json_ws c = (c = 9 \<or> c = 10 \<or> c = 13 \<or> c = 32)"

definition hex_val :: "nat \<Rightarrow> nat option" where
  "hex_val c =
     (if 48 \<le> c \<and> c \<le> 57 then Some (c - 48)
      else if 97 \<le> c \<and> c \<le> 102 then Some (c - 87)
      else if 65 \<le> c \<and> c \<le> 70 then Some (c - 55)
      else None)"

fun hex4 :: "jstring \<Rightarrow> nat option" where
  "hex4 [a, b, c, d] =
     (case (hex_val a, hex_val b, hex_val c, hex_val d) of
        (Some x, Some y, Some z, Some w) \<Rightarrow> Some (4096 * x + 256 * y + 16 * z + w)
      | _ \<Rightarrow> None)"
| "hex4 xs = None"

definition simple_escape :: "nat \<Rightarrow> nat option" where
  "simple_escape e =
     (if e = 34 then Some 34 else if e = 92 then Some 92 else if e = 47 then Some 47
      else if e = 98 then Some 8 else if e = 102 then Some 12 else if e = 110 then Some 10
      else if e = 114 then Some 13 else if e = 116 then Some 9 else None)"

definition cons_fst :: "'a \<Rightarrow> ('a list \<times> 'b) option \<Rightarrow> ('a list \<times> 'b) option" where
  "cons_fst x r = (case r of None \<Rightarrow> None | Some (xs, rest) \<Rightarrow> Some (x # xs, rest))"

text \<open>
  A string literal behind its opening quote: the code units it denotes and the text behind
  its closing quote. A raw control character (below U+0020), an unknown escape and a
  missing closing quote are errors.
\<close>

fun scan_string :: "jstring \<Rightarrow> (jstring \<times> jstring) option" where
  "scan_string [] = None"
| "scan_string (c # cs) =
     (if c = DQ then Some ([], cs)
      else if c = BSL then
        (case cs of
           [] \<Rightarrow> None
         | e # r \<Rightarrow>
             if e = 117 then
               (case hex4 (take 4 r) of
                  None \<Rightarrow> None
                | Some u \<Rightarrow> cons_fst u (scan_string (drop 4 r)))
             else
               (case simple_escape e of
                  None \<Rightarrow> None
                | Some x \<Rightarrow> cons_fst x (scan_string r)))
      else if c < 32 then None
      else cons_fst c (scan_string cs))"

text \<open>
  A number, by the JSON grammar \<open>-?(0|[1-9][0-9]*)(\.[0-9]+)?([eE][+-]?[0-9]+)?\<close>, read
  by its automaton: the longest lexeme and the rest. The states say what has been read.
\<close>

datatype nstate = NBegin | NMinus | NZero | NInt | NDot | NFrac | NE | NESign | NExp

fun accepting :: "nstate \<Rightarrow> bool" where
  "accepting NZero = True"
| "accepting NInt = True"
| "accepting NFrac = True"
| "accepting NExp = True"
| "accepting q = False"

definition is_e :: "nat \<Rightarrow> bool" where
  "is_e c = (c = 101 \<or> c = 69)"

fun next_state :: "nstate \<Rightarrow> nat \<Rightarrow> nstate option" where
  "next_state NBegin c =
     (if c = 45 then Some NMinus else if c = 48 then Some NZero
      else if is_digit c then Some NInt else None)"
| "next_state NMinus c =
     (if c = 48 then Some NZero else if is_digit c then Some NInt else None)"
| "next_state NZero c =
     (if c = 46 then Some NDot else if is_e c then Some NE else None)"
| "next_state NInt c =
     (if is_digit c then Some NInt else if c = 46 then Some NDot
      else if is_e c then Some NE else None)"
| "next_state NDot c = (if is_digit c then Some NFrac else None)"
| "next_state NFrac c =
     (if is_digit c then Some NFrac else if is_e c then Some NE else None)"
| "next_state NE c =
     (if c = 43 \<or> c = 45 then Some NESign else if is_digit c then Some NExp else None)"
| "next_state NESign c = (if is_digit c then Some NExp else None)"
| "next_state NExp c = (if is_digit c then Some NExp else None)"

fun scan_number_from :: "nstate \<Rightarrow> jstring \<Rightarrow> (jstring \<times> jstring) option" where
  "scan_number_from q [] = (if accepting q then Some ([], []) else None)"
| "scan_number_from q (c # cs) =
     (case next_state q c of
        Some q' \<Rightarrow> cons_fst c (scan_number_from q' cs)
      | None \<Rightarrow> if accepting q then Some ([], c # cs) else None)"

definition scan_number :: "jstring \<Rightarrow> (jstring \<times> jstring) option" where
  "scan_number xs = scan_number_from NBegin xs"

lemma cons_fst_shorter:
  "cons_fst x r = Some (s, rest) \<Longrightarrow> \<exists>s'. r = Some (s', rest)"
  by (auto simp: cons_fst_def split: option.splits)

lemma scan_string_shorter:
  "scan_string cs = Some (s, rest) \<Longrightarrow> length rest < length cs"
proof (induction cs arbitrary: s rule: scan_string.induct)
  case 1
  then show ?case by simp
next
  case (2 c cs)
  show ?case
  proof (cases "c = DQ")
    case True
    with "2.prems" show ?thesis by simp
  next
    case nq: False
    show ?thesis
    proof (cases "c = BSL")
      case False
      with nq "2.prems" obtain s' where "scan_string cs = Some (s', rest)"
        by (auto split: if_splits dest: cons_fst_shorter)
      with "2.IH"(3) nq False "2.prems" have "length rest < length cs"
        by (auto split: if_splits)
      then show ?thesis by simp
    next
      case True
      with nq "2.prems" obtain e r where cs: "cs = e # r"
        by (cases cs) auto
      show ?thesis
      proof (cases "e = 117")
        case u: True
        with nq True cs "2.prems" obtain v s' where
          "hex4 (take 4 r) = Some v" "scan_string (drop 4 r) = Some (s', rest)"
          by (auto split: option.splits dest: cons_fst_shorter)
        with "2.IH"(1) [OF nq True cs u] have "length rest < length (drop 4 r)"
          by simp
        with cs show ?thesis by simp
      next
        case False
        with nq True cs "2.prems" obtain v s' where
          "simple_escape e = Some v" "scan_string r = Some (s', rest)"
          by (auto split: option.splits dest: cons_fst_shorter)
        with "2.IH"(2) [OF nq True cs False] have "length rest < length r"
          by simp
        with cs show ?thesis by simp
      qed
    qed
  qed
qed

lemma scan_number_from_split:
  "scan_number_from q xs = Some (n, rest) \<Longrightarrow> xs = n @ rest \<and> (accepting q \<or> n \<noteq> [])"
proof (induction xs arbitrary: q n)
  case Nil
  then show ?case by (simp split: if_splits)
next
  case (Cons c cs)
  show ?case
  proof (cases "next_state q c")
    case None
    with Cons.prems show ?thesis by (simp split: if_splits)
  next
    case (Some q')
    with Cons.prems obtain n' where "scan_number_from q' cs = Some (n', rest)" "n = c # n'"
      by (auto simp: cons_fst_def split: option.splits)
    with Cons.IH [of q' n'] show ?thesis by simp
  qed
qed

lemma scan_number_shorter:
  assumes "scan_number xs = Some (n, rest)"
  shows "length rest < length xs"
  using scan_number_from_split [of NBegin xs n rest] assms
  by (auto simp: scan_number_def)

function lex :: "jstring \<Rightarrow> token list option" where
  "lex [] = Some []"
| "lex (c # cs) =
     (if is_json_ws c then lex cs
      else if c = 123 then map_option ((#) TLBrace) (lex cs)
      else if c = 125 then map_option ((#) TRBrace) (lex cs)
      else if c = 91 then map_option ((#) TLBracket) (lex cs)
      else if c = 93 then map_option ((#) TRBracket) (lex cs)
      else if c = 44 then map_option ((#) TComma) (lex cs)
      else if c = 58 then map_option ((#) TColon) (lex cs)
      else if c = DQ then
        (case scan_string cs of
           None \<Rightarrow> None
         | Some (s, rest) \<Rightarrow> map_option ((#) (TString s)) (lex rest))
      else if c = 45 \<or> is_digit c then
        (case scan_number (c # cs) of
           None \<Rightarrow> None
         | Some (n, rest) \<Rightarrow> map_option ((#) (TNumber n)) (lex rest))
      else if starts_with (asc ''true'') (c # cs) then map_option ((#) TTrue) (lex (drop 3 cs))
      else if starts_with (asc ''false'') (c # cs) then map_option ((#) TFalse) (lex (drop 4 cs))
      else if starts_with (asc ''null'') (c # cs) then map_option ((#) TNull) (lex (drop 3 cs))
      else None)"
  by pat_completeness auto
termination
  by (relation "measure length")
     (auto dest: scan_string_shorter scan_number_shorter
       )

text \<open>
  The second pass reads the tokens with a stack of the arrays and objects that are still
  open: an array with its elements so far, an object with its properties so far, and an
  object whose next key has been read and waits for its value.
\<close>

datatype frame =
    InArray "jsvalue list"
  | InObject "(jstring \<times> jsvalue) list"
  | InMember "(jstring \<times> jsvalue) list" jstring

text \<open>What may come next.\<close>

datatype mode =
    MValue       \<comment> \<open>a value\<close>
  | MFirst       \<comment> \<open>behind \<open>[\<close>: a value or \<open>]\<close>\<close>
  | MKeyFirst    \<comment> \<open>behind \<open>{\<close>: a key or \<open>}\<close>\<close>
  | MKey         \<comment> \<open>behind a comma in an object: a key\<close>
  | MColon       \<comment> \<open>behind a key: the colon\<close>
  | MAfter       \<comment> \<open>behind an element or a property: a comma or the closing bracket\<close>
  | MDone jsvalue \<comment> \<open>the whole value has been read: nothing\<close>

fun close_value :: "jsvalue \<Rightarrow> frame list \<Rightarrow> (mode \<times> frame list) option" where
  "close_value v [] = Some (MDone v, [])"
| "close_value v (InArray els # st) = Some (MAfter, InArray (els @ [v]) # st)"
| "close_value v (InMember ms k # st) = Some (MAfter, InObject (set_prop k v ms) # st)"
| "close_value v (InObject ms # st) = None"

fun value_step :: "frame list \<Rightarrow> token \<Rightarrow> (mode \<times> frame list) option" where
  "value_step st TLBracket = Some (MFirst, InArray [] # st)"
| "value_step st TLBrace = Some (MKeyFirst, InObject [] # st)"
| "value_step st (TString s) = close_value (JString s) st"
| "value_step st (TNumber n) = close_value (JNumber n) st"
| "value_step st TTrue = close_value (JBool True) st"
| "value_step st TFalse = close_value (JBool False) st"
| "value_step st TNull = close_value JNull st"
| "value_step st t = None"

fun key_step :: "frame list \<Rightarrow> token \<Rightarrow> (mode \<times> frame list) option" where
  "key_step (InObject ms # st) (TString k) = Some (MColon, InMember ms k # st)"
| "key_step st t = None"

fun after_step :: "frame list \<Rightarrow> token \<Rightarrow> (mode \<times> frame list) option" where
  "after_step (InArray els # st) TComma = Some (MValue, InArray els # st)"
| "after_step (InArray els # st) TRBracket = close_value (JArray els) st"
| "after_step (InObject ms # st) TComma = Some (MKey, InObject ms # st)"
| "after_step (InObject ms # st) TRBrace = close_value (JObject ms) st"
| "after_step st t = None"

fun step :: "mode \<Rightarrow> frame list \<Rightarrow> token \<Rightarrow> (mode \<times> frame list) option" where
  "step MValue st t = value_step st t"
| "step MFirst st t = (if t = TRBracket then after_step st t else value_step st t)"
| "step MKeyFirst st t = (if t = TRBrace then after_step st t else key_step st t)"
| "step MKey st t = key_step st t"
| "step MColon st t = (if t = TColon then Some (MValue, st) else None)"
| "step MAfter st t = after_step st t"
| "step (MDone v) st t = None"

fun parse_tokens :: "mode \<Rightarrow> frame list \<Rightarrow> token list \<Rightarrow> jsvalue option" where
  "parse_tokens (MDone v) st [] = Some v"
| "parse_tokens m st [] = None"
| "parse_tokens m st (t # ts) =
     (case step m st t of
        None \<Rightarrow> None
      | Some (m', st') \<Rightarrow> parse_tokens m' st' ts)"

definition JSON_parse :: "jstring \<Rightarrow> jsvalue option" where
  "JSON_parse text =
     (case lex text of None \<Rightarrow> None | Some ts \<Rightarrow> parse_tokens MValue [] ts)"

section \<open>JSON.stringify and String\<close>

definition hex_digit :: "nat \<Rightarrow> nat" where
  "hex_digit d = (if d < 10 then 48 + d else 87 + d)"

definition unicode_escape :: "nat \<Rightarrow> jstring" where
  "unicode_escape c =
     [BSL, 117, hex_digit (c div 4096 mod 16), hex_digit (c div 256 mod 16),
      hex_digit (c div 16 mod 16), hex_digit (c mod 16)]"

definition is_high_surrogate :: "nat \<Rightarrow> bool" where
  "is_high_surrogate c = (55296 \<le> c \<and> c \<le> 56319)"

definition is_low_surrogate :: "nat \<Rightarrow> bool" where
  "is_low_surrogate c = (56320 \<le> c \<and> c \<le> 57343)"

text \<open>One code unit inside a string literal (\<open>QuoteJSONString\<close>), pairs apart.\<close>

definition quote_unit :: "nat \<Rightarrow> jstring" where
  "quote_unit c =
     (if c = 8 then [BSL, 98] else if c = 9 then [BSL, 116] else if c = 10 then [BSL, 110]
      else if c = 12 then [BSL, 102] else if c = 13 then [BSL, 114]
      else if c = 34 then [BSL, 34] else if c = 92 then [BSL, 92]
      else if c < 32 \<or> is_high_surrogate c \<or> is_low_surrogate c then unicode_escape c
      else [c])"

text \<open>A surrogate pair is written as it is; a surrogate on its own is escaped.\<close>

fun quote_body :: "jstring \<Rightarrow> jstring" where
  "quote_body (c # d # cs) =
     (if is_high_surrogate c \<and> is_low_surrogate d then c # d # quote_body cs
      else quote_unit c @ quote_body (d # cs))"
| "quote_body [c] = quote_unit c"
| "quote_body [] = []"

definition quote :: "jstring \<Rightarrow> jstring" where
  "quote s = DQ # quote_body s @ [DQ]"

fun join_comma :: "jstring list \<Rightarrow> jstring" where
  "join_comma [] = []"
| "join_comma [x] = x"
| "join_comma (x # y # zs) = x @ 44 # join_comma (y # zs)"

text \<open>
  \<open>JSON.stringify(v)\<close> without indentation; \<open>None\<close> is the result \<open>undefined\<close>. An
  \<open>undefined\<close> element of an array is written \<open>null\<close>, an \<open>undefined\<close> property is left
  out.
\<close>

fun JSON_stringify :: "jsvalue \<Rightarrow> jstring option"
  and stringify_elements :: "jsvalue list \<Rightarrow> jstring list"
  and stringify_members :: "(jstring \<times> jsvalue) list \<Rightarrow> jstring list" where
  "JSON_stringify JUndefined = None"
| "JSON_stringify JNull = Some (asc ''null'')"
| "JSON_stringify (JBool b) = Some (if b then asc ''true'' else asc ''false'')"
| "JSON_stringify (JNumber n) = Some n"
| "JSON_stringify (JString s) = Some (quote s)"
| "JSON_stringify (JArray xs) = Some (91 # join_comma (stringify_elements xs) @ [93])"
| "JSON_stringify (JObject ms) = Some (123 # join_comma (stringify_members ms) @ [125])"
| "stringify_elements [] = []"
| "stringify_elements (x # xs) =
     (case JSON_stringify x of None \<Rightarrow> asc ''null'' | Some t \<Rightarrow> t) # stringify_elements xs"
| "stringify_members [] = []"
| "stringify_members (kv # ms) =
     (case JSON_stringify (snd kv) of
        None \<Rightarrow> stringify_members ms
      | Some t \<Rightarrow> (quote (fst kv) @ 58 # t) # stringify_members ms)"

text \<open>
  \<open>String(v)\<close>. Line 93 applies it to numbers and booleans only; an array is the
  comma-separated list of its elements, with nothing for \<open>null\<close> and \<open>undefined\<close>.
\<close>

fun String_of :: "jsvalue \<Rightarrow> jstring"
  and String_of_elements :: "jsvalue list \<Rightarrow> jstring list" where
  "String_of (JBool b) = (if b then asc ''true'' else asc ''false'')"
| "String_of (JNumber n) = n"
| "String_of (JString s) = s"
| "String_of JNull = asc ''null''"
| "String_of JUndefined = asc ''undefined''"
| "String_of (JArray xs) = join_comma (String_of_elements xs)"
| "String_of (JObject ms) = asc ''[object Object]''"
| "String_of_elements [] = []"
| "String_of_elements (x # xs) =
     (if x = JNull \<or> x = JUndefined then [] else String_of x) # String_of_elements xs"

text \<open>The decimal digits of a natural number, for \<open>Date.now()\<close> inside a template.\<close>

fun decimal :: "nat \<Rightarrow> jstring" where
  "decimal n = (if n < 10 then [48 + n] else decimal (n div 10) @ [48 + n mod 10])"

section \<open>The recovery block (route.ts, lines 133-206)\<close>

text \<open>
  \<open>parseLLMJson\<close> is imported from \<open>@/utils/jsonParser\<close>, which is not among the sources:
  it is a parameter of everything below. It gets the text and the options object and
  returns a value; \<open>None\<close> stands for a call that throws. The two option objects are the
  ones written at the two call sites; a field that a call site leaves out is \<open>None\<close>.
\<close>

record parse_options =
  attemptFix :: "bool option"
  maxBlocks :: "nat option"
  preferFirst :: "bool option"
  allowPartial :: "bool option"

type_synonym llm_parser = "jstring \<Rightarrow> parse_options \<Rightarrow> jsvalue option"

definition advanced_options :: parse_options where
  "advanced_options =
     \<lparr>attemptFix = Some True, maxBlocks = Some 5, preferFirst = Some True,
      allowPartial = Some False\<rparr>"

definition last_resort_options :: parse_options where
  "last_resort_options =
     \<lparr>attemptFix = Some True, maxBlocks = None, preferFirst = None, allowPartial = None\<rparr>"

text \<open>The test \<open>x && typeof x === 'object'\<close> that every strategy applies to its result.\<close>

definition is_recovered :: "jsvalue \<Rightarrow> bool" where
  "is_recovered v = (truthy v \<and> typeof_object v)"

definition up_to_last :: "nat \<Rightarrow> jstring \<Rightarrow> jstring" where
  "up_to_last x cs = rev (dropWhile (\<lambda>y. y \<noteq> x) (rev cs))"

text \<open>
  \<open>cleaned.match(/\{[\s\S]*\}|\[[\s\S]*\]/)\<close>: the first position at which one of the two
  alternatives matches, the first alternative first; \<open>[\s\S]*\<close> is greedy, so the match
  runs to the last closing bracket of that kind in the text.
\<close>

fun json_match :: "jstring \<Rightarrow> jstring option" where
  "json_match [] = None"
| "json_match (c # cs) =
     (if c = 123 \<and> 125 \<in> set cs then Some (c # up_to_last 125 cs)
      else if c = 91 \<and> 93 \<in> set cs then Some (c # up_to_last 93 cs)
      else json_match cs)"

text \<open>
  The value of \<open>parsedResponse\<close> behind line 201 when \<open>data.response\<close> is the string
  \<open>reply\<close>. It starts as the reply and is assigned only a result that passes
  \<open>is_recovered\<close>. A throwing \<open>parseLLMJson\<close> is caught at line 198, with \<open>parsedResponse\<close>
  still the reply.
\<close>

definition recover :: "llm_parser \<Rightarrow> jstring \<Rightarrow> jsvalue" where
  "recover parseLLMJson reply =
     (let cleaned = normalize reply in
      case JSON_parse cleaned of
        Some directParse \<Rightarrow>
          if is_recovered directParse then directParse else JString reply
      | None \<Rightarrow>
          (case parseLLMJson cleaned advanced_options of
             None \<Rightarrow> JString reply
           | Some parsed \<Rightarrow>
               if is_recovered parsed then parsed
               else
                 (case json_match cleaned of
                    None \<Rightarrow> JString reply
                  | Some jsonMatch \<Rightarrow>
                      (case JSON_parse jsonMatch of
                         Some extracted \<Rightarrow>
                           if is_recovered extracted then extracted else JString reply
                       | None \<Rightarrow>
                           (case parseLLMJson jsonMatch last_resort_options of
                              None \<Rightarrow> JString reply
                            | Some lastResort \<Rightarrow>
                                if is_recovered lastResort then lastResort
                                else JString reply)))))"

section \<open>The answer of the endpoint (route.ts, lines 208-238)\<close>

fun contains :: "jstring \<Rightarrow> jstring \<Rightarrow> bool" where
  "contains needle [] = (needle = [])"
| "contains needle (c # cs) = (starts_with needle (c # cs) \<or> contains needle cs)"

text \<open>
  \<open>e?.includes(needle)\<close>, as a condition: \<open>undefined\<close> for a missing \<open>e\<close>, the substring test
  of a string, the membership test of an array; any other \<open>e\<close> has no method \<open>includes\<close>
  and the call throws a \<open>TypeError\<close> (\<open>None\<close>).
\<close>

fun includes_js :: "jsvalue \<Rightarrow> jstring \<Rightarrow> bool option" where
  "includes_js JUndefined needle = Some False"
| "includes_js JNull needle = Some False"
| "includes_js (JString s) needle = Some (contains needle s)"
| "includes_js (JArray xs) needle = Some (JString needle \<in> set xs)"
| "includes_js v needle = None"

text \<open>
  The operand of \<open>!\<close> in lines 209-214: whether the value is an object that reports a
  parsing failure of its own.
\<close>

definition reports_parse_failure :: "jsvalue \<Rightarrow> bool option" where
  "reports_parse_failure parsedResponse =
     (if truthy parsedResponse \<and> typeof_object parsedResponse
         \<and> get_prop parsedResponse (asc ''success'') = JBool False
      then (case includes_js (get_prop parsedResponse (asc ''error'')) (asc ''JSON'') of
              None \<Rightarrow> None
            | Some True \<Rightarrow> Some True
            | Some False \<Rightarrow> includes_js (get_prop parsedResponse (asc ''error'')) (asc ''parse''))
      else Some False)"

definition has_valid_data_of :: "jsvalue \<Rightarrow> jsvalue \<Rightarrow> bool" where
  "has_valid_data_of parsedResponse reply =
     (truthy (get_prop parsedResponse (asc ''result''))
      \<or> truthy (get_prop parsedResponse (asc ''answer''))
      \<or> truthy (get_prop parsedResponse (asc ''message''))
      \<or> truthy (get_prop parsedResponse (asc ''data''))
      \<or> (typeof_string reply \<and> reply \<noteq> JString []))"

record agent_reply =
  response :: jsvalue
  raw_response :: jsvalue
  agent_id :: jsvalue
  user_id :: jsvalue
  session_id :: jsvalue
  timestamp :: jstring
  parse_succeeded :: bool
  has_valid_data :: bool

text \<open>What makes the handler end in its outer \<open>catch\<close> (line 250).\<close>

datatype failure =
    BodyNotJson          \<comment> \<open>\<open>request.json()\<close> rejects\<close>
  | BodyNull             \<comment> \<open>destructuring \<open>null\<close>\<close>
  | FetchFailed          \<comment> \<open>\<open>fetch\<close> rejects\<close>
  | UpstreamNotJson      \<comment> \<open>\<open>response.json()\<close> rejects\<close>
  | DataNull             \<comment> \<open>\<open>data.response\<close> on \<open>null\<close>\<close>
  | IncludesNotFunction  \<comment> \<open>\<open>error?.includes\<close> is not a function\<close>
  | CircularResponse     \<comment> \<open>the answer cannot be serialised\<close>

text \<open>
  The bodies the handler sends: the answer with \<open>success: true\<close>, and the four with
  \<open>success: false\<close> (key not configured, missing fields, the upstream's status with its
  text, internal server error).
\<close>

datatype reply_body =
    AgentReply agent_reply
  | ConfigError
  | MissingFields
  | UpstreamError nat jstring
  | InternalError failure

record http_reply =
  status :: nat
  body :: reply_body

fun success :: "reply_body \<Rightarrow> bool" where
  "success (AgentReply a) = True"
| "success b = False"

definition internal_error :: "failure \<Rightarrow> http_reply" where
  "internal_error f = \<lparr>status = 500, body = InternalError f\<rparr>"

text \<open>The values of the clock and of the request that end up in the answer unchanged.\<close>

record metadata =
  meta_agent_id :: jsvalue
  meta_user_id :: jsvalue
  meta_session_id :: jsvalue
  meta_timestamp :: jstring

text \<open>
  Lines 133-238, from \<open>data.response\<close> to the answer. For a string the recovery block runs;
  any other value stays as it is. Line 218 stores the reply into the recovered object;
  when the reply is itself that object (the branch of line 202), the object then contains
  itself and \<open>NextResponse.json\<close> cannot serialise it.
\<close>

definition respond :: "llm_parser \<Rightarrow> metadata \<Rightarrow> jsvalue \<Rightarrow> http_reply" where
  "respond parseLLMJson meta reply =
     (let parsedResponse = (case reply of JString s \<Rightarrow> recover parseLLMJson s | _ \<Rightarrow> reply) in
      case reports_parse_failure parsedResponse of
        None \<Rightarrow> internal_error IncludesNotFunction
      | Some failed \<Rightarrow>
          if failed \<and> truthy parsedResponse \<and> typeof_object parsedResponse
             \<and> \<not> typeof_string reply
          then internal_error CircularResponse
          else
            \<lparr>status = 200,
             body = AgentReply
               \<lparr>response =
                  (if failed \<and> truthy parsedResponse \<and> typeof_object parsedResponse
                   then (case parsedResponse of
                           JObject ms \<Rightarrow> JObject (set_prop (asc ''raw_response'') reply ms)
                         | _ \<Rightarrow> parsedResponse)
                   else parsedResponse),
                raw_response = reply,
                agent_id = meta_agent_id meta,
                user_id = meta_user_id meta,
                session_id = meta_session_id meta,
                timestamp = meta_timestamp meta,
                parse_succeeded = (\<not> failed),
                has_valid_data = has_valid_data_of parsedResponse reply\<rparr>\<rparr>)"

section \<open>The handler (route.ts, lines 65-261)\<close>

text \<open>
  The surroundings of one call: the environment variable, and the clock at its three
  readings (\<open>Date.now()\<close> for a missing user id, for a missing session id, and
  \<open>new Date().toISOString()\<close> for the answer).
\<close>

record environment =
  api_key :: "jstring option"
  user_clock :: nat
  session_clock :: nat
  reply_clock :: jstring

text \<open>
  What \<open>fetch\<close> gives back for a payload: nothing (it rejects), or a response with its
  \<open>ok\<close>, its \<open>status\<close>, what \<open>response.json()\<close> yields (\<open>None\<close>: it rejects) and
  \<open>response.text()\<close>.
\<close>

record upstream_reply =
  ok :: bool
  upstream_status :: nat
  json_body :: "jsvalue option"
  text_body :: jstring

type_synonym upstream = "jsvalue \<Rightarrow> upstream_reply option"

text \<open>Lines 83-94: an object becomes its JSON text, another non-string its \<open>String\<close>.\<close>

definition coerce_message :: "jsvalue \<Rightarrow> jsvalue" where
  "coerce_message message =
     (if truthy message \<and> typeof_object message then
        (case JSON_stringify message of Some t \<Rightarrow> JString t | None \<Rightarrow> JUndefined)
      else if message \<noteq> JUndefined \<and> message \<noteq> JNull \<and> \<not> typeof_string message then
        JString (String_of message)
      else message)"

text \<open>\<open>a || b\<close>.\<close>

definition or_else :: "jsvalue \<Rightarrow> jsvalue \<Rightarrow> jsvalue" where
  "or_else a b = (if truthy a then a else b)"

text \<open>Lines 108-118.\<close>

definition build_payload :: "environment \<Rightarrow> jsvalue \<Rightarrow> jsvalue \<Rightarrow> jsvalue" where
  "build_payload env request_body message =
     JObject
       ([(asc ''user_id'',
           or_else (get_prop request_body (asc ''user_id''))
             (JString (asc ''user-'' @ decimal (user_clock env)))),
         (asc ''agent_id'', get_prop request_body (asc ''agent_id'')),
         (asc ''session_id'',
           or_else (get_prop request_body (asc ''session_id''))
             (JString (asc ''session-'' @ decimal (session_clock env)))),
         (asc ''message'', message)]
        @ (case get_prop request_body (asc ''assets'') of
             JArray (x # xs) \<Rightarrow> [(asc ''assets'', JArray (x # xs))]
           | _ \<Rightarrow> []))"

text \<open>
  The outcome of one call of \<open>POST\<close>: the answer, and the payloads that were sent to the
  agent API on the way.
\<close>

record outcome =
  answer :: http_reply
  upstream_calls :: "jsvalue list"

definition POST :: "environment \<Rightarrow> upstream \<Rightarrow> llm_parser \<Rightarrow> jsvalue option \<Rightarrow> outcome" where
  "POST env fetch parseLLMJson request_json =
     (if api_key env = None \<or> api_key env = Some [] then
        \<lparr>answer = \<lparr>status = 500, body = ConfigError\<rparr>, upstream_calls = []\<rparr>
      else
        (case request_json of
           None \<Rightarrow> \<lparr>answer = internal_error BodyNotJson, upstream_calls = []\<rparr>
         | Some request_body \<Rightarrow>
             if request_body = JNull \<or> request_body = JUndefined then
               \<lparr>answer = internal_error BodyNull, upstream_calls = []\<rparr>
             else
               (let message = coerce_message (get_prop request_body (asc ''message''))
                in if \<not> truthy message \<or> \<not> truthy (get_prop request_body (asc ''agent_id'')) then
                     \<lparr>answer = \<lparr>status = 400, body = MissingFields\<rparr>, upstream_calls = []\<rparr>
                   else
                     (let payload = build_payload env request_body message
                      in \<lparr>answer =
                            (case fetch payload of
                               None \<Rightarrow> internal_error FetchFailed
                             | Some r \<Rightarrow>
                                 if ok r then
                                   (case json_body r of
                                      None \<Rightarrow> internal_error UpstreamNotJson
                                    | Some data \<Rightarrow>
                                        if data = JNull \<or> data = JUndefined then
                                          internal_error DataNull
                                        else
                                          respond parseLLMJson
                                            \<lparr>meta_agent_id = get_prop request_body (asc ''agent_id''),
                                             meta_user_id = get_prop request_body (asc ''user_id''),
                                             meta_session_id = get_prop request_body (asc ''session_id''),
                                             meta_timestamp = reply_clock env\<rparr>
                                            (get_prop data (asc ''response'')))
                                 else
                                   \<lparr>status = upstream_status r,
                                    body = UpstreamError (upstream_status r) (text_body r)\<rparr>),
                          upstream_calls = [payload]\<rparr>))))"

text \<open>
  A stand-in for \<open>parseLLMJson\<close> where an example needs a concrete one: it recovers
  nothing and returns \<open>null\<close>.
\<close>

definition no_recovery :: llm_parser where
  "no_recovery text opts = Some JNull"

section \<open>Reading an answer, and the fixtures of the examples\<close>

text \<open>Non-null objects and arrays: the values on which \<open>is_recovered\<close> holds.\<close>

fun is_structure :: "jsvalue \<Rightarrow> bool" where
  "is_structure (JArray xs) = True"
| "is_structure (JObject ms) = True"
| "is_structure v = False"

text \<open>The scalars of JSON.\<close>

fun is_scalar :: "jsvalue \<Rightarrow> bool" where
  "is_scalar JNull = True"
| "is_scalar (JBool b) = True"
| "is_scalar (JNumber n) = True"
| "is_scalar (JString s) = True"
| "is_scalar v = False"

text \<open>
  The part of an answer that the recovery decides: the status, and for an answer with
  \<open>success: true\<close> its \<open>response\<close>, \<open>raw_response\<close>, \<open>_parse_succeeded\<close> and
  \<open>_has_valid_data\<close>; the ids and the time stamp are left out.
\<close>

fun recovery_result :: "http_reply \<Rightarrow> nat \<times> (jsvalue \<times> jsvalue \<times> bool \<times> bool) option" where
  "recovery_result r =
     (status r,
      case body r of
        AgentReply a \<Rightarrow> Some (response a, raw_response a, parse_succeeded a, has_valid_data a)
      | _ \<Rightarrow> None)"

text \<open>
  For the examples: a request without ids, a configured environment, one without the key,
  an agent API that cannot be reached, and a \<open>parseLLMJson\<close> that throws.
\<close>

definition example_meta :: metadata where
  "example_meta =
     \<lparr>meta_agent_id = JString (asc ''agent-1''), meta_user_id = JUndefined,
      meta_session_id = JUndefined, meta_timestamp = asc ''2026-01-01T00:00:00.000Z''\<rparr>"

definition example_env :: environment where
  "example_env =
     \<lparr>api_key = Some (asc ''key''), user_clock = 1767225600000, session_clock = 1767225600000,
      reply_clock = asc ''2026-01-01T00:00:00.000Z''\<rparr>"

definition unconfigured_env :: environment where
  "unconfigured_env =
     \<lparr>api_key = None, user_clock = 1767225600000, session_clock = 1767225600000,
      reply_clock = asc ''2026-01-01T00:00:00.000Z''\<rparr>"

definition unreachable :: upstream where
  "unreachable payload = None"

definition throwing_parser :: llm_parser where
  "throwing_parser text opts = None"

text \<open>
  Whether the run of the recovery block on a reply meets a call of \<open>parseLLMJson\<close> that
  throws: the call of line 163, or the call of line 185 when the block gets there.
\<close>

definition parser_throws :: "llm_parser \<Rightarrow> jstring \<Rightarrow> bool" where
  "parser_throws parseLLMJson reply =
     (let cleaned = normalize reply in
      JSON_parse cleaned = None \<and>
      (case parseLLMJson cleaned advanced_options of
         None \<Rightarrow> True
       | Some parsed \<Rightarrow>
           \<not> is_recovered parsed \<and>
           (case json_match cleaned of
              None \<Rightarrow> False
            | Some jsonMatch \<Rightarrow>
                JSON_parse jsonMatch = None \<and> parseLLMJson jsonMatch last_resort_options = None)))"




section \<open>JSON values and their tokens\<close>

text \<open>
  The values that \<open>JSON.parse\<close> builds: no \<open>undefined\<close>, every number a lexeme of the JSON
  grammar, and the properties of every object in the order in which defining them one by
  one leaves them.
\<close>

definition built_in_order :: "(jstring \<times> jsvalue) list \<Rightarrow> bool" where
  "built_in_order ms = (foldl (\<lambda>acc kv. set_prop (fst kv) (snd kv) acc) [] ms = ms)"

fun json_value :: "jsvalue \<Rightarrow> bool"
  and json_values :: "jsvalue list \<Rightarrow> bool"
  and json_members :: "(jstring \<times> jsvalue) list \<Rightarrow> bool" where
  "json_value JUndefined = False"
| "json_value JNull = True"
| "json_value (JBool b) = True"
| "json_value (JNumber n) = (scan_number n = Some (n, []))"
| "json_value (JString s) = True"
| "json_value (JArray xs) = json_values xs"
| "json_value (JObject ms) = (json_members ms \<and> built_in_order ms)"
| "json_values [] = True"
| "json_values (x # xs) = (json_value x \<and> json_values xs)"
| "json_members [] = True"
| "json_members (kv # ms) = (json_value (snd kv) \<and> json_members ms)"


text \<open>What can follow a value inside a serialisation: nothing, a comma, a closing bracket.\<close>

definition delimited :: "jstring \<Rightarrow> bool" where
  "delimited rest = (rest = [] \<or> hd rest = 44 \<or> hd rest = 93 \<or> hd rest = 125)"


abbreviation continue :: "(mode \<times> frame list) option \<Rightarrow> token list \<Rightarrow> jsvalue option" where
  "continue r ts \<equiv> (case r of None \<Rightarrow> None | Some (m', st') \<Rightarrow> parse_tokens m' st' ts)"


text \<open>
  The order of the properties of an object, as a relation between keys: array indices
  ascend, and every array index comes before every other key. In a canonical list of
  properties no key occurs twice and the keys are in that order.
\<close>

definition key_before :: "jstring \<Rightarrow> jstring \<Rightarrow> bool" where
  "key_before k k' =
     (case array_index k of
        Some a \<Rightarrow> (case array_index k' of Some b \<Rightarrow> a < b | None \<Rightarrow> True)
      | None \<Rightarrow> array_index k' = None)"

definition canonical :: "(jstring \<times> jsvalue) list \<Rightarrow> bool" where
  "canonical ms = (distinct (map fst ms) \<and> sorted_wrt key_before (map fst ms))"


text \<open>
  What the parser keeps while it runs: the numbers among the tokens are lexemes of the
  grammar, and the arrays and objects on the stack hold JSON values, the objects in
  canonical order.
\<close>

fun valid_token :: "token \<Rightarrow> bool" where
  "valid_token (TNumber n) = (scan_number n = Some (n, []))"
| "valid_token t = True"

fun frame_ok :: "frame \<Rightarrow> bool" where
  "frame_ok (InArray els) = json_values els"
| "frame_ok (InObject ms) = (json_members ms \<and> canonical ms)"
| "frame_ok (InMember ms k) = (json_members ms \<and> canonical ms)"

fun mode_ok :: "mode \<Rightarrow> bool" where
  "mode_ok (MDone v) = json_value v"
| "mode_ok m = True"


section \<open>Properties of the clean-up\<close>

lemma starts_with_split: "starts_with p xs \<Longrightarrow> xs = p @ drop (length p) xs"
  by (metis starts_with_def append_take_drop_id)

lemma length_fence [simp]: "length fence = 3"
  by (simp add: fence_def)



lemmas text_eval = asc_def starts_with_def fence_def is_space_def is_line_terminator_def
  fence_open_match_def fence_close_match_def trim_def normalize_def Let_def

text \<open>
  The mark goes at the very end of the clean-up, with \<open>trim\<close>. Until then it stands
  in front of the text, so a fence behind it does not begin a line for line 147 and
  stays.
\<close>

lemma bom_before_fence:
  \<open>normalize (BOM # asc ''```json'' @ LF # asc ''{}'' @ LF # asc ''```'') =
   asc ''```json'' @ LF # asc ''{}''\<close>
  by (simp add: text_eval)

lemma replace_escape_head:
  "c \<noteq> BSL \<Longrightarrow> replace_escape l r (c # b) = c # replace_escape l r b"
  by (cases b) simp_all

lemma replace_escape_split:
  "c \<noteq> l \<Longrightarrow> c \<noteq> BSL \<Longrightarrow>
   replace_escape l r (a @ c # b) = replace_escape l r a @ c # replace_escape l r b"
  by (induction l r a rule: replace_escape.induct) (simp_all add: replace_escape_head)

lemma starts_with_append_LF:
  assumes "xs \<noteq> []" "last xs = LF" "LF \<notin> set p"
  shows "starts_with p (xs @ t) = starts_with p xs"
proof (cases "length p \<le> length xs")
  case True
  then show ?thesis by (simp add: starts_with_def)
next
  case False
  then have short: "length xs < length p" by simp
  then have "\<not> starts_with p xs"
    by (auto simp: starts_with_def dest: arg_cong [where f = length])
  moreover have "\<not> starts_with p (xs @ t)"
  proof
    assume "starts_with p (xs @ t)"
    then have "p = xs @ take (length p - length xs) t"
      using short by (simp add: starts_with_def)
    then have "set xs \<subseteq> set p" by (metis set_append Un_upper1)
    moreover have "LF \<in> set xs" using assms(1,2) last_in_set by metis
    ultimately show False using assms(3) by auto
  qed
  ultimately show ?thesis by simp
qed

lemma fence_open_match_unfold:
  assumes "starts_with fence xs"
  shows "fence_open_match xs =
    (let af = drop 3 xs;
         tag = (if starts_with (asc ''json'') af then asc ''json''
                else if starts_with (asc ''JSON'') af then asc ''JSON'' else []);
         ta = drop (length tag) af;
         nl = (if starts_with [LF] (dropWhile is_space ta) then [LF] else [])
     in Some (fence @ tag @ takeWhile is_space ta @ nl, drop (length nl) (dropWhile is_space ta)))"
  unfolding fence_open_match_def Let_def using assms by (simp only: if_True)

lemma fence_open_match_split:
  assumes "fence_open_match xs = Some (m, rest)"
  shows "xs = m @ rest \<and> m \<noteq> []"
proof -
  from assms have sw: "starts_with fence xs"
    by (simp add: fence_open_match_def split: if_splits)
  define af where "af = drop 3 xs"
  define tag where "tag = (if starts_with (asc ''json'') af then asc ''json''
                    else if starts_with (asc ''JSON'') af then asc ''JSON'' else [])"
  define ta where "ta = drop (length tag) af"
  define nl where "nl = (if starts_with [LF] (dropWhile is_space ta) then [LF] else [])"
  have "fence_open_match xs =
      Some (fence @ tag @ takeWhile is_space ta @ nl, drop (length nl) (dropWhile is_space ta))"
    unfolding fence_open_match_unfold [OF sw] Let_def tag_def ta_def nl_def af_def ..
  with assms have m: "m = fence @ tag @ takeWhile is_space ta @ nl"
    and r: "rest = drop (length nl) (dropWhile is_space ta)"
    by simp_all
  have 1: "xs = fence @ af"
    using starts_with_split [OF sw] by (simp add: af_def)
  have 2: "af = tag @ ta"
    by (auto simp: tag_def ta_def dest: starts_with_split)
  have 3: "dropWhile is_space ta = nl @ drop (length nl) (dropWhile is_space ta)"
    by (auto simp: nl_def dest: starts_with_split)
  have "ta = takeWhile is_space ta @ dropWhile is_space ta" by simp
  with 3 have "ta = takeWhile is_space ta @ nl @ drop (length nl) (dropWhile is_space ta)"
    by metis
  with 1 2 m r show ?thesis by (simp add: fence_def)
qed

lemma drop_keeps_last:
  assumes "ys = p @ zs" "ys \<noteq> []" "last ys = LF" "LF \<notin> set p"
  shows "zs \<noteq> [] \<and> last zs = LF"
proof -
  have "zs \<noteq> []"
  proof
    assume "zs = []"
    with assms(1,2,3) have "LF \<in> set p" using last_in_set by fastforce
    with assms(4) show False by simp
  qed
  with assms(1,3) show ?thesis by simp
qed

text \<open>
  A match of the opening pattern never reaches over a line feed that is followed by a
  code unit that is not white space: cutting the text there cuts no match.
\<close>

lemma fence_open_match_append:
  assumes ne: "xs \<noteq> []" and lf: "last xs = LF" and t: "t = [] \<or> \<not> is_space (hd t)"
  shows "fence_open_match (xs @ t) = map_option (\<lambda>(m, r). (m, r @ t)) (fence_open_match xs)"
proof (cases "starts_with fence xs")
  case False
  moreover have "LF \<notin> set fence" by (simp add: fence_def)
  ultimately have "\<not> starts_with fence (xs @ t)"
    using starts_with_append_LF [OF ne lf] by simp
  with False show ?thesis by (simp add: fence_open_match_def)
next
  case True
  have nf: "LF \<notin> set fence" by (simp add: fence_def)
  then have True': "starts_with fence (xs @ t)"
    using starts_with_append_LF [OF ne lf] True by simp
  define af where "af = drop 3 xs"
  define tag where "tag = (if starts_with (asc ''json'') af then asc ''json''
                else if starts_with (asc ''JSON'') af then asc ''JSON'' else [])"
  define ta where "ta = drop (length tag) af"
  have xs: "xs = fence @ af"
    using starts_with_split [OF True] by (simp add: af_def)
  have af: "af \<noteq> [] \<and> last af = LF"
    using drop_keeps_last [OF xs ne lf nf] .
  have af_ta: "af = tag @ ta"
    by (auto simp: tag_def ta_def dest: starts_with_split)
  have nt: "LF \<notin> set tag" by (simp add: tag_def asc_def)
  have ta: "ta \<noteq> [] \<and> last ta = LF"
    using drop_keeps_last [OF af_ta _ _ nt] af by simp
  have d3: "drop 3 (xs @ t) = af @ t"
  proof -
    have "drop 3 ((fence @ af) @ t) = af @ t" by simp
    with xs show ?thesis by simp
  qed
  have tag': "(if starts_with (asc ''json'') (af @ t) then asc ''json''
                else if starts_with (asc ''JSON'') (af @ t) then asc ''JSON'' else []) = tag"
    using af by (simp add: tag_def starts_with_append_LF asc_def)
  have dt: "drop (length tag) (af @ t) = ta @ t"
  proof -
    have "drop (length tag) ((tag @ ta) @ t) = ta @ t" by simp
    with af_ta show ?thesis by simp
  qed
  have tnl: "\<not> starts_with [LF] t"
    using t by (cases t) (auto simp: starts_with_def is_space_def)
  have tw: "takeWhile is_space t = []"
    using t by (cases t) auto
  have dw: "dropWhile is_space t = t"
    using t by (cases t) auto
  show ?thesis
  proof (cases "\<forall>x\<in>set ta. is_space x")
    case all: True
    then have 1: "takeWhile is_space (ta @ t) = ta" "dropWhile is_space (ta @ t) = t"
      "takeWhile is_space ta = ta" "dropWhile is_space ta = []"
      by (simp_all add: tw dw)
    have "fence_open_match (xs @ t) = Some (fence @ tag @ ta, t)"
      unfolding fence_open_match_unfold [OF True'] Let_def d3 tag' dt 1
      using tnl by simp
    moreover have "fence_open_match xs = Some (fence @ tag @ ta, [])"
      unfolding fence_open_match_unfold [OF True] Let_def af_def [symmetric] tag_def [symmetric]
        ta_def [symmetric] 1
      by (simp add: starts_with_def)
    ultimately show ?thesis by simp
  next
    case False
    then have 1: "takeWhile is_space (ta @ t) = takeWhile is_space ta"
      "dropWhile is_space (ta @ t) = dropWhile is_space ta @ t"
      by (auto simp: takeWhile_append1 dropWhile_append1)
    from False have ne': "dropWhile is_space ta \<noteq> []"
      by (simp add: dropWhile_eq_Nil_conv)
    then have sw: "starts_with [LF] (dropWhile is_space ta @ t) = starts_with [LF] (dropWhile is_space ta)"
      by (cases "dropWhile is_space ta") (simp_all add: starts_with_def)
    define nl where "nl = (if starts_with [LF] (dropWhile is_space ta) then [LF] else [])"
    have len: "length nl \<le> length (dropWhile is_space ta)"
      using ne' by (cases "dropWhile is_space ta") (simp_all add: nl_def)
    have "fence_open_match (xs @ t) =
        Some (fence @ tag @ takeWhile is_space ta @ nl, drop (length nl) (dropWhile is_space ta) @ t)"
      unfolding fence_open_match_unfold [OF True'] Let_def d3 tag' dt 1 sw nl_def [symmetric]
      using len by simp
    moreover have "fence_open_match xs =
        Some (fence @ tag @ takeWhile is_space ta @ nl, drop (length nl) (dropWhile is_space ta))"
      unfolding fence_open_match_unfold [OF True] Let_def af_def [symmetric] tag_def [symmetric]
        ta_def [symmetric] nl_def [symmetric]
      by simp
    ultimately show ?thesis by simp
  qed
qed

lemma strip_open_none:
  "(if b then fence_open_match (c # cs) else None) = None \<Longrightarrow>
   strip_open_fences b (c # cs) = c # strip_open_fences (is_line_terminator c) cs"
  by simp

lemma strip_open_some:
  "b \<Longrightarrow> fence_open_match (c # cs) = Some (m, rest) \<Longrightarrow>
   strip_open_fences b (c # cs) = strip_open_fences (is_line_terminator (last m)) rest"
  by simp

lemma strip_open_fences_append:
  "xs \<noteq> [] \<Longrightarrow> last xs = LF \<Longrightarrow> t = [] \<or> \<not> is_space (hd t) \<Longrightarrow>
   strip_open_fences b (xs @ t) = strip_open_fences b xs @ strip_open_fences True t"
proof (induction "length xs" arbitrary: xs b rule: less_induct)
  case less
  from less.prems(1) obtain c cs where xs: "xs = c # cs" by (cases xs) auto
  have app: "fence_open_match (c # cs @ t) =
      map_option (\<lambda>(m, r). (m, r @ t)) (fence_open_match (c # cs))"
    using fence_open_match_append [OF less.prems] by (simp add: xs)
  show ?case
  proof (cases "if b then fence_open_match (c # cs) else None")
    case None
    then have None': "(if b then fence_open_match (c # cs @ t) else None) = None"
      using app by (simp split: if_splits)
    have l: "strip_open_fences b (xs @ t) = c # strip_open_fences (is_line_terminator c) (cs @ t)"
      using strip_open_none [OF None'] by (simp add: xs)
    have r: "strip_open_fences b xs = c # strip_open_fences (is_line_terminator c) cs"
      using strip_open_none [OF None] by (simp add: xs)
    show ?thesis
    proof (cases "cs = []")
      case True
      with less.prems(2) xs have "c = LF" by simp
      with True l r show ?thesis
        by (simp add: is_line_terminator_def)
    next
      case False
      with less.prems xs have "strip_open_fences (is_line_terminator c) (cs @ t) =
          strip_open_fences (is_line_terminator c) cs @ strip_open_fences True t"
        by (intro less.hyps) auto
      with l r show ?thesis by simp
    qed
  next
    case (Some mr)
    obtain m rest where mr: "mr = (m, rest)" by (cases mr)
    with Some have fm: "fence_open_match (c # cs) = Some (m, rest)" and b: b
      by (simp_all split: if_splits)
    then have fm': "fence_open_match (c # cs @ t) = Some (m, rest @ t)"
      using app by simp
    have l: "strip_open_fences b (xs @ t) = strip_open_fences (is_line_terminator (last m)) (rest @ t)"
      using strip_open_some [OF b fm'] by (simp add: xs)
    have r: "strip_open_fences b xs = strip_open_fences (is_line_terminator (last m)) rest"
      using strip_open_some [OF b fm] by (simp add: xs)
    from fence_open_match_split [OF fm] have split: "c # cs = m @ rest" "m \<noteq> []" by simp_all
    show ?thesis
    proof (cases "rest = []")
      case True
      with split less.prems(2) xs have "last m = LF" by simp
      with True l r show ?thesis
        by (simp add: is_line_terminator_def)
    next
      case False
      with split less.prems(2) xs have "last rest = LF" by (metis last_appendR)
      moreover have "length rest < length xs"
        using fence_open_match_shorter [OF fm] by (simp add: xs)
      ultimately have "strip_open_fences (is_line_terminator (last m)) (rest @ t) =
          strip_open_fences (is_line_terminator (last m)) rest @ strip_open_fences True t"
        using False less.prems(3) by (intro less.hyps) auto
      with l r show ?thesis by simp
    qed
  qed
qed

lemma strip_open_fences_fence_line:
  assumes "\<not> is_space p"
  shows "strip_open_fences True (fence @ LF # p # ps) = strip_open_fences True (p # ps)"
proof -
  have "fence_open_match (fence @ LF # p # ps) = Some (fence @ [LF], p # ps)"
    using assms
    by (auto simp: fence_open_match_def Let_def starts_with_def fence_def asc_def is_space_def)
  then show ?thesis
    by (simp add: fence_def is_line_terminator_def)
qed

lemma strip_open_fences_body_fence:
  assumes "\<not> is_space p"
  shows "strip_open_fences True (pre @ LF # fence @ LF # p # ps) =
         strip_open_fences True (pre @ LF # p # ps)"
proof -
  have "strip_open_fences True ((pre @ [LF]) @ (fence @ LF # p # ps)) =
        strip_open_fences True (pre @ [LF]) @ strip_open_fences True (fence @ LF # p # ps)"
    by (rule strip_open_fences_append) (simp_all add: fence_def is_space_def)
  moreover have "strip_open_fences True ((pre @ [LF]) @ (p # ps)) =
        strip_open_fences True (pre @ [LF]) @ strip_open_fences True (p # ps)"
    using assms by (intro strip_open_fences_append) simp_all
  ultimately show ?thesis
    using strip_open_fences_fence_line [OF assms, of ps] by simp
qed

lemma replace_escape_body:
  assumes "l \<noteq> LF" "p \<noteq> BSL"
  shows "replace_escape l r (pre @ LF # fence @ LF # p # ps) =
         replace_escape l r pre @ LF # fence @ LF # p # replace_escape l r ps"
    and "replace_escape l r (pre @ LF # p # ps) =
         replace_escape l r pre @ LF # p # replace_escape l r ps"
  using assms by (simp_all add: replace_escape_split replace_escape_head fence_def)

text \<open>
  C6 (as amended). The two fence patterns carry the flags \<open>g\<close> and \<open>m\<close>: they are applied
  at every line of the text, not once at its two ends. A line that consists of a fence
  is therefore removed from the middle of the body as well: the text with such a line,
  in front of a line that begins with neither white space nor a backslash, is cleaned to
  the same result as the text without it.
\<close>

theorem fence_line_in_body_is_removed:
  assumes "\<not> is_space p" and "p \<noteq> BSL"
  shows "normalize (pre @ LF # fence @ LF # p # ps) = normalize (pre @ LF # p # ps)"
  unfolding normalize_def
  using assms by (simp add: replace_escape_body strip_open_fences_body_fence)

theorem fence_line_in_body_witness:
  "normalize (asc ''a'' @ LF # fence @ LF # asc ''b'') = normalize (asc ''a'' @ LF # asc ''b'')"
  using fence_line_in_body_is_removed [of 98 "asc ''a''" "[]"]
  by (simp add: is_space_def asc_def)

text \<open>
  C6 as stated fails: of the three lines \<open>a\<close>, \<open>```\<close>, \<open>b\<close> the fence in the middle is
  removed, although it is neither the first nor the last line.
\<close>

theorem fence_line_in_body_counterexample:
  "normalize (asc ''a'' @ LF # fence @ LF # asc ''b'') = asc ''a'' @ LF # asc ''b''
   \<and> normalize (asc ''a'' @ LF # fence @ LF # asc ''b'') \<noteq> asc ''a'' @ LF # fence @ LF # asc ''b''"
  by (simp add: text_eval)

section \<open>Properties of the recovery block and of the answer\<close>

lemmas json_eval = is_json_ws_def is_digit_def is_e_def hex_val_def simple_escape_def cons_fst_def
  scan_number_def JSON_parse_def set_prop_def array_index_def index_below_def decimal_value_def

lemmas reply_eval = recover_def is_recovered_def reports_parse_failure_def has_valid_data_of_def
  respond_def internal_error_def advanced_options_def last_resort_options_def no_recovery_def
  throwing_parser_def up_to_last_def number_is_zero_def example_meta_def

lemma is_recovered_structure: "is_recovered v = is_structure v"
  by (cases v) (simp_all add: is_recovered_def)

lemma scalar_not_recovered: "is_scalar v \<Longrightarrow> \<not> is_recovered v"
  by (cases v) (simp_all add: is_recovered_def)

lemma recover_cases: "recover p s = JString s \<or> is_structure (recover p s)"
  by (auto simp: recover_def Let_def is_recovered_structure split: option.splits)

text \<open>
  When the recovery block leaves the reply as it is, the answer carries it twice, and
  the flag says that parsing succeeded: a string reports no failure of its own.
\<close>

lemma respond_unrecovered:
  assumes "recover p s = JString s"
  shows "respond p meta (JString s) =
    \<lparr>status = 200,
     body = AgentReply
       \<lparr>response = JString s, raw_response = JString s, agent_id = meta_agent_id meta,
        user_id = meta_user_id meta, session_id = meta_session_id meta,
        timestamp = meta_timestamp meta, parse_succeeded = True, has_valid_data = (s \<noteq> [])\<rparr>\<rparr>"
  using assms by (simp add: respond_def Let_def reports_parse_failure_def has_valid_data_of_def)

text \<open>
  C1 (as amended). When no strategy yields an object or array, \<open>parsedResponse\<close> is still
  the reply, and the endpoint does not report a failure: it answers with status 200 and
  \<open>success: true\<close>, the reply itself as \<open>response\<close> and as \<open>raw_response\<close>, and
  \<open>_parse_succeeded: true\<close>. The original text is preserved; the flag is not false.
\<close>

theorem unrecovered_reply_is_answered_as_success:
  assumes "recover parseLLMJson reply = JString reply"
  shows "status (respond parseLLMJson meta (JString reply)) = 200
    \<and> success (body (respond parseLLMJson meta (JString reply)))
    \<and> recovery_result (respond parseLLMJson meta (JString reply)) =
        (200, Some (JString reply, JString reply, True, reply \<noteq> []))"
  by (simp add: respond_unrecovered [OF assms])

text \<open>A plain sentence, with a \<open>parseLLMJson\<close> that recovers nothing: all four strategies run.\<close>

theorem unrecovered_reply_witness:
  "recover no_recovery (asc ''plain text'') = JString (asc ''plain text'')
   \<and> recovery_result (respond no_recovery example_meta (JString (asc ''plain text''))) =
        (200, Some (JString (asc ''plain text''), JString (asc ''plain text''), True, True))"
proof -
  have r: "recover no_recovery (asc ''plain text'') = JString (asc ''plain text'')"
    by (simp add: text_eval json_eval reply_eval)
  from unrecovered_reply_is_answered_as_success [OF r, of example_meta] r
  show ?thesis by (simp add: asc_def)
qed

text \<open>
  C1 as stated fails. The reply \<open>42\<close> is a string on which no strategy yields an object
  (\<open>JSON.parse\<close> returns the number 42, which line 156 turns down, and nothing is thrown,
  so \<open>parseLLMJson\<close> is not called); the flag of the answer is true, not false.
\<close>

theorem unrecovered_reply_counterexample:
  "recover no_recovery (asc ''42'') = JString (asc ''42'')
   \<and> recovery_result (respond no_recovery example_meta (JString (asc ''42''))) =
        (200, Some (JString (asc ''42''), JString (asc ''42''), True, True))"
  by (simp add: text_eval json_eval reply_eval)

text \<open>
  C2 (as amended). When the cleaned reply is strict JSON for a scalar, the direct parse
  succeeds and its result is turned down by the test of line 156; no other strategy runs
  (whatever \<open>parseLLMJson\<close> is), and the endpoint answers with the original reply string
  as \<open>response\<close>, not with the scalar. Only non-null objects and arrays are recovered.
\<close>

theorem scalar_reply_is_answered_as_text:
  assumes "JSON_parse (normalize reply) = Some v" and "is_scalar v"
  shows "recover parseLLMJson reply = JString reply
    \<and> recovery_result (respond parseLLMJson meta (JString reply)) =
        (200, Some (JString reply, JString reply, True, reply \<noteq> []))"
proof -
  from assms have "recover parseLLMJson reply = JString reply"
    by (simp add: recover_def scalar_not_recovered)
  then show ?thesis
    by (simp add: respond_unrecovered)
qed

theorem scalar_reply_witness:
  \<open>recover throwing_parser (asc ''"hi"'') = JString (asc ''"hi"'')
   \<and> recovery_result (respond throwing_parser example_meta (JString (asc ''"hi"''))) =
        (200, Some (JString (asc ''"hi"''), JString (asc ''"hi"''), True, True))\<close>
proof -
  have \<open>JSON_parse (normalize (asc ''"hi"'')) = Some (JString (asc ''hi''))\<close>
    by (simp add: text_eval json_eval)
  from scalar_reply_is_answered_as_text [OF this, of throwing_parser example_meta]
  show ?thesis by (simp add: asc_def)
qed

text \<open>
  C2 as stated fails: the cleaned reply \<open>42\<close> is strict JSON for the number 42, and the
  recovered value is the string \<open>42\<close>, not that number.
\<close>

theorem scalar_reply_counterexample:
  "JSON_parse (normalize (asc ''42'')) = Some (JNumber (asc ''42''))
   \<and> recover no_recovery (asc ''42'') \<noteq> JNumber (asc ''42'')
   \<and> recover throwing_parser (asc ''42'') \<noteq> JNumber (asc ''42'')"
  by (simp add: text_eval json_eval reply_eval)

text \<open>
  C9. Whatever \<open>parseLLMJson\<close> does, the recovery block leaves in \<open>parsedResponse\<close> either
  the reply itself or a non-null object or array, never a scalar or \<open>null\<close>; the
  \<open>response\<close> of an answer with \<open>success: true\<close> is of the same two kinds (line 218 only
  adds a property to an object); and when a call of \<open>parseLLMJson\<close> throws, the reply
  stays in place.
\<close>

theorem recovery_block_output_type:
  "(recover parseLLMJson reply = JString reply \<or> is_structure (recover parseLLMJson reply))
   \<and> (case body (respond parseLLMJson meta (JString reply)) of
         AgentReply a \<Rightarrow> response a = JString reply \<or> is_structure (response a)
       | _ \<Rightarrow> True)
   \<and> (parser_throws parseLLMJson reply \<longrightarrow> recover parseLLMJson reply = JString reply)"
proof (intro conjI)
  show block: "recover parseLLMJson reply = JString reply \<or> is_structure (recover parseLLMJson reply)"
    by (rule recover_cases)
  show "case body (respond parseLLMJson meta (JString reply)) of
         AgentReply a \<Rightarrow> response a = JString reply \<or> is_structure (response a)
       | _ \<Rightarrow> True"
    using block
    by (auto simp: respond_def Let_def internal_error_def
        split: option.splits jsvalue.splits)
  show "parser_throws parseLLMJson reply \<longrightarrow> recover parseLLMJson reply = JString reply"
    by (auto simp: parser_throws_def recover_def Let_def split: option.splits)
qed

theorem recovery_block_output_type_witness:
  "parser_throws throwing_parser (asc ''{'')
   \<and> recover throwing_parser (asc ''{'') = JString (asc ''{'')"
proof -
  have t: "parser_throws throwing_parser (asc ''{'')"
    by (simp add: parser_throws_def text_eval json_eval reply_eval)
  with recovery_block_output_type [of throwing_parser "asc ''{''" example_meta]
  show ?thesis by simp
qed


text \<open>
  C10 (as amended). When the API key is configured and the body of the request is JSON
  other than \<open>null\<close>: if the message, after lines 83-94, is missing or empty, or the agent
  id is missing, the handler answers 400 with \<open>success: false\<close> and has sent nothing to
  the agent API.
\<close>

theorem missing_fields_are_rejected:
  assumes "api_key env = Some key" and "key \<noteq> []"
    and "request_json = Some request_body"
    and "request_body \<noteq> JNull" and "request_body \<noteq> JUndefined"
    and "\<not> truthy (coerce_message (get_prop request_body (asc ''message'')))
         \<or> \<not> truthy (get_prop request_body (asc ''agent_id''))"
  shows "status (answer (POST env fetch parseLLMJson request_json)) = 400
    \<and> \<not> success (body (answer (POST env fetch parseLLMJson request_json)))
    \<and> upstream_calls (POST env fetch parseLLMJson request_json) = []"
  using assms by (auto simp: POST_def Let_def)

theorem missing_fields_witness:
  "status (answer (POST example_env unreachable no_recovery
      (Some (JObject [(asc ''agent_id'', JString (asc ''agent-1''))])))) = 400
   \<and> upstream_calls (POST example_env unreachable no_recovery
      (Some (JObject [(asc ''agent_id'', JString (asc ''agent-1''))]))) = []"
  using missing_fields_are_rejected [of example_env "asc ''key''"
      "Some (JObject [(asc ''agent_id'', JString (asc ''agent-1''))])"
      "JObject [(asc ''agent_id'', JString (asc ''agent-1''))]" unreachable no_recovery]
  by (simp add: example_env_def asc_def coerce_message_def)

text \<open>
  C10 as stated fails: without the API key the handler answers 500 before it looks at the
  request, also when the request has no message.
\<close>

theorem missing_fields_counterexample:
  "\<not> truthy (coerce_message (get_prop (JObject []) (asc ''message'')))
   \<and> status (answer (POST unconfigured_env unreachable no_recovery (Some (JObject [])))) = 500"
  by (simp add: POST_def unconfigured_env_def coerce_message_def)








section \<open>Properties of the extraction and of the round trip\<close>






lemma not_contains_Cons:
  "\<not> contains p (c # cs) \<Longrightarrow> \<not> starts_with p (c # cs) \<and> \<not> contains p cs"
  by simp
























lemma stringify_elements_Nil [simp]: "stringify_elements xs = [] \<longleftrightarrow> xs = []"
  by (cases xs) simp_all

lemma delimited_simps [simp]:
  "delimited (44 # rest)" "delimited (93 # rest)" "delimited (125 # rest)" "delimited []"
  by (simp_all add: delimited_def)


lemma parse_tokens_step:
  "parse_tokens m st (t # ts) = continue (step m st t) ts"
  by simp



text \<open>
  Conversely, every value that \<open>JSON.parse\<close> returns is a JSON value in this sense: the
  key of an array index is the decimal numeral of the index, so two keys with the same
  index are the same key, and defining a property keeps a canonical list canonical.
\<close>

lemma decimal_value_snoc:
  "decimal_value (ds @ [d]) = 10 * decimal_value ds + (d - 48)"
  by (simp add: decimal_value_def)

lemma decimal_value_positive:
  "ds \<noteq> [] \<Longrightarrow> list_all is_digit ds \<Longrightarrow> hd ds \<noteq> 48 \<Longrightarrow> 0 < decimal_value ds"
proof (induction ds rule: rev_induct)
  case Nil
  then show ?case by simp
next
  case (snoc d ds)
  show ?case
  proof (cases "ds = []")
    case True
    with snoc.prems show ?thesis
      by (simp add: decimal_value_def is_digit_def)
  next
    case False
    with snoc have "0 < decimal_value ds" by simp
    then show ?thesis by (simp add: decimal_value_snoc)
  qed
qed

lemma decimal_of_value:
  "ds \<noteq> [] \<Longrightarrow> list_all is_digit ds \<Longrightarrow> ds = [48] \<or> hd ds \<noteq> 48 \<Longrightarrow>
   decimal (decimal_value ds) = ds"
proof (induction ds rule: rev_induct)
  case Nil
  then show ?case by simp
next
  case (snoc d ds)
  from snoc.prems(2) have d: "48 \<le> d" "d \<le> 57" by (simp_all add: is_digit_def)
  show ?case
  proof (cases "ds = []")
    case True
    have "decimal (d - 48) = [48 + (d - 48)]"
      using d by (subst decimal.simps) simp
    with True d show ?thesis
      by (simp add: decimal_value_def del: decimal.simps)
  next
    case False
    with snoc.prems have hd: "hd ds \<noteq> 48" by (cases ds) auto
    with False snoc have ih: "decimal (decimal_value ds) = ds" by simp
    from False hd snoc.prems(2) have pos: "0 < decimal_value ds"
      by (simp add: decimal_value_positive)
    define m where "m = decimal_value ds"
    define x where "x = d - 48"
    have x: "x < 10" "48 + x = d" using d by (simp_all add: x_def)
    have "decimal (10 * m + x) = decimal ((10 * m + x) div 10) @ [48 + (10 * m + x) mod 10]"
      using pos by (subst decimal.simps) (simp add: m_def)
    moreover have "(10 * m + x) div 10 = m" "(10 * m + x) mod 10 = x"
      using x(1) by simp_all
    ultimately have "decimal (10 * m + x) = decimal m @ [d]"
      using x(2) by (simp del: decimal.simps)
    with ih show ?thesis
      by (simp add: decimal_value_snoc m_def x_def del: decimal.simps)
  qed
qed

lemma array_index_decimal:
  "array_index k = Some n \<Longrightarrow> k = decimal n"
  by (auto simp: array_index_def decimal_of_value split: if_splits simp del: decimal.simps)

lemma array_index_inject:
  "array_index k = Some n \<Longrightarrow> array_index k' = Some n \<Longrightarrow> k = k'"
  by (auto dest!: array_index_decimal)

lemma set_prop_last:
  assumes "k \<notin> fst ` set acc" and "\<forall>x\<in>set acc. key_before (fst x) k"
  shows "set_prop k v acc = acc @ [(k, v)]"
proof (cases "array_index k")
  case None
  with assms(1) show ?thesis by (simp add: set_prop_def)
next
  case (Some n)
  have "index_below n x" if "x \<in> set acc" for x
    using assms(2) that Some
    by (auto simp: key_before_def index_below_def split: option.splits)
  then have "takeWhile (index_below n) acc = acc" "dropWhile (index_below n) acc = []"
    by simp_all
  with assms(1) Some show ?thesis by (simp add: set_prop_def)
qed

lemma canonical_fold:
  "canonical (acc @ ms) \<Longrightarrow>
   foldl (\<lambda>a kv. set_prop (fst kv) (snd kv) a) acc ms = acc @ ms"
proof (induction ms arbitrary: acc)
  case Nil
  show ?case by simp
next
  case (Cons kv ms)
  from Cons.prems have "fst kv \<notin> fst ` set acc" "\<forall>x\<in>set acc. key_before (fst x) (fst kv)"
    by (auto simp: canonical_def sorted_wrt_append)
  then have "set_prop (fst kv) (snd kv) acc = acc @ [kv]"
    by (simp add: set_prop_last)
  moreover from Cons.prems have "canonical ((acc @ [kv]) @ ms)" by simp
  ultimately show ?case
    using Cons.IH [of "acc @ [kv]"] by simp
qed

lemma canonical_built_in_order: "canonical ms \<Longrightarrow> built_in_order ms"
  using canonical_fold [of "[]" ms] by (simp add: built_in_order_def)

lemma canonical_set_prop:
  assumes "canonical ms"
  shows "canonical (set_prop k v ms)"
proof (cases "k \<in> fst ` set ms")
  case True
  have "fst \<circ> (\<lambda>(k', v'). if k' = k then (k', v) else (k', v')) = fst"
    by (auto simp: fun_eq_iff)
  with True assms show ?thesis
    by (simp add: set_prop_def canonical_def)
next
  case new: False
  show ?thesis
  proof (cases "array_index k")
    case None
    then have "key_before k' k" for k'
      by (simp add: key_before_def split: option.splits)
    with new None assms show ?thesis
      by (auto simp: set_prop_def canonical_def sorted_wrt_append)
  next
    case (Some n)
    define T where "T = takeWhile (index_below n) ms"
    define D where "D = dropWhile (index_below n) ms"
    have ms: "ms = T @ D" by (simp add: T_def D_def)
    have sp: "set_prop k v ms = T @ (k, v) # D"
      using new Some by (simp add: set_prop_def T_def D_def)
    have T: "key_before (fst x) k" if "x \<in> set T" for x
    proof -
      from that have "index_below n x"
        unfolding T_def by (rule set_takeWhileD [THEN conjunct2])
      with Some show ?thesis
        by (auto simp: key_before_def index_below_def split: option.splits)
    qed
    have D: "key_before k (fst y)" if "y \<in> set D" for y
    proof -
      from that obtain d0 D' where D0: "D = d0 # D'" by (cases D) auto
      then have "\<not> index_below n d0"
        using hd_dropWhile [of "index_below n" ms] by (simp add: D_def)
      moreover have "array_index (fst d0) \<noteq> Some n"
      proof
        assume "array_index (fst d0) = Some n"
        then have "fst d0 = k" using Some by (rule array_index_inject)
        moreover have "d0 \<in> set ms" using ms D0 by simp
        ultimately show False using new by force
      qed
      ultimately have d0: "key_before k (fst d0)"
        using Some by (auto simp: key_before_def index_below_def split: option.splits)
      show ?thesis
      proof (cases "y = d0")
        case True
        with d0 show ?thesis by simp
      next
        case False
        with that D0 have "y \<in> set D'" by simp
        moreover from assms ms D0 have "sorted_wrt key_before (map fst (d0 # D'))"
          by (simp add: canonical_def sorted_wrt_append)
        ultimately have "key_before (fst d0) (fst y)" by auto
        with d0 Some show ?thesis
          by (auto simp: key_before_def split: option.splits)
      qed
    qed
    from assms ms have "distinct (map fst (T @ D))" "sorted_wrt key_before (map fst (T @ D))"
      by (simp_all add: canonical_def)
    moreover from new ms have "k \<notin> fst ` set T" "k \<notin> fst ` set D" by auto
    ultimately show ?thesis
      using T D by (auto simp: sp canonical_def sorted_wrt_append)
  qed
qed

lemma scan_number_from_self:
  "scan_number_from q xs = Some (n, rest) \<Longrightarrow> scan_number_from q n = Some (n, [])"
proof (induction xs arbitrary: q n)
  case Nil
  then show ?case by (auto split: if_splits)
next
  case (Cons c cs)
  show ?case
  proof (cases "next_state q c")
    case None
    with Cons.prems show ?thesis by (auto split: if_splits)
  next
    case (Some q')
    with Cons.prems obtain n' where n: "n = c # n'" "scan_number_from q' cs = Some (n', rest)"
      by (auto simp: cons_fst_def split: option.splits)
    from Cons.IH [OF n(2)] Some n(1) show ?thesis
      by (simp add: cons_fst_def)
  qed
qed

lemma valid_cons:
  assumes "map_option ((#) t) r = Some ts" "valid_token t"
    and "\<And>ts'. r = Some ts' \<Longrightarrow> list_all valid_token ts'"
  shows "list_all valid_token ts"
  using assms by (cases r) auto

lemma lex_valid: "lex s = Some ts \<Longrightarrow> list_all valid_token ts"
proof (induction s arbitrary: ts rule: lex.induct)
  case 1
  then show ?case by simp
next
  case (2 c cs)
  note eq = "2.prems"
  show ?case
  proof (cases "is_json_ws c")
    case True
    with eq "2.IH"(1) show ?thesis by simp
  next
    case ws: False
    show ?thesis
    proof (cases "c = 123 \<or> c = 125 \<or> c = 91 \<or> c = 93 \<or> c = 44 \<or> c = 58")
      case True
      then consider "c = 123" | "c \<noteq> 123" "c = 125" | "c \<noteq> 123" "c \<noteq> 125" "c = 91"
        | "c \<noteq> 123" "c \<noteq> 125" "c \<noteq> 91" "c = 93"
        | "c \<noteq> 123" "c \<noteq> 125" "c \<noteq> 91" "c \<noteq> 93" "c = 44"
        | "c \<noteq> 123" "c \<noteq> 125" "c \<noteq> 91" "c \<noteq> 93" "c \<noteq> 44" "c = 58"
        by blast
      then show ?thesis
      proof cases
        case 1
        with ws eq have m: "map_option ((#) TLBrace) (lex cs) = Some ts" by simp
        show ?thesis
          by (rule valid_cons [OF m]) (simp_all add: "2.IH"(2) [OF ws 1])
      next
        case 2
        with ws eq have m: "map_option ((#) TRBrace) (lex cs) = Some ts" by simp
        show ?thesis
          by (rule valid_cons [OF m]) (simp_all add: "2.IH"(3) [OF ws 2])
      next
        case 3
        with ws eq have m: "map_option ((#) TLBracket) (lex cs) = Some ts" by simp
        show ?thesis
          by (rule valid_cons [OF m]) (simp_all add: "2.IH"(4) [OF ws 3])
      next
        case 4
        with ws eq have m: "map_option ((#) TRBracket) (lex cs) = Some ts" by simp
        show ?thesis
          by (rule valid_cons [OF m]) (simp_all add: "2.IH"(5) [OF ws 4])
      next
        case 5
        with ws eq have m: "map_option ((#) TComma) (lex cs) = Some ts" by simp
        show ?thesis
          by (rule valid_cons [OF m]) (simp_all add: "2.IH"(6) [OF ws 5])
      next
        case 6
        with ws eq have m: "map_option ((#) TColon) (lex cs) = Some ts" by simp
        show ?thesis
          by (rule valid_cons [OF m]) (simp_all add: "2.IH"(7) [OF ws 6])
      qed
    next
      case False
      then have p: "c \<noteq> 123" "c \<noteq> 125" "c \<noteq> 91" "c \<noteq> 93" "c \<noteq> 44" "c \<noteq> 58"
        by simp_all
      show ?thesis
      proof (cases "c = DQ")
        case True
        with ws p eq obtain str rest where
          sc: "scan_string cs = Some (str, rest)"
          and m: "map_option ((#) (TString str)) (lex rest) = Some ts"
          by (auto split: option.splits)
        show ?thesis
          by (rule valid_cons [OF m]) (simp_all add: "2.IH"(8) [OF ws p True sc refl])
      next
        case q: False
        show ?thesis
        proof (cases "c = 45 \<or> is_digit c")
          case True
          with ws p q eq obtain n rest where
            sc: "scan_number (c # cs) = Some (n, rest)"
            and m: "map_option ((#) (TNumber n)) (lex rest) = Some ts"
            by (auto split: option.splits)
          from sc have "scan_number n = Some (n, [])"
            unfolding scan_number_def by (rule scan_number_from_self)
          then show ?thesis
            by (intro valid_cons [OF m]) (simp_all add: "2.IH"(9) [OF ws p q True sc refl])
        next
          case d: False
          show ?thesis
          proof (cases "starts_with (asc ''true'') (c # cs)")
            case True
            with ws p q d eq have m: "map_option ((#) TTrue) (lex (drop 3 cs)) = Some ts"
              by simp
            show ?thesis
              by (rule valid_cons [OF m]) (simp_all add: "2.IH"(10) [OF ws p q d True])
          next
            case t: False
            show ?thesis
            proof (cases "starts_with (asc ''false'') (c # cs)")
              case True
              with ws p q d t eq have m: "map_option ((#) TFalse) (lex (drop 4 cs)) = Some ts"
                by simp
              show ?thesis
                by (rule valid_cons [OF m]) (simp_all add: "2.IH"(11) [OF ws p q d t True])
            next
              case f: False
              show ?thesis
              proof (cases "starts_with (asc ''null'') (c # cs)")
                case True
                with ws p q d t f eq have m: "map_option ((#) TNull) (lex (drop 3 cs)) = Some ts"
                  by simp
                show ?thesis
                  by (rule valid_cons [OF m]) (simp_all add: "2.IH"(12) [OF ws p q d t f True])
              next
                case False
                with ws p q d t f eq show ?thesis by simp
              qed
            qed
          qed
        qed
      qed
    qed
  qed
qed

lemma json_values_append: "json_values (xs @ ys) = (json_values xs \<and> json_values ys)"
  by (induction xs) simp_all

lemma json_members_iff: "json_members ms = (\<forall>kv\<in>set ms. json_value (snd kv))"
  by (induction ms) simp_all

lemma set_set_prop:
  "set (set_prop k v ms) \<subseteq> insert (k, v) (set ms) \<union> (\<lambda>kv. (fst kv, v)) ` set ms"
proof (cases "k \<in> fst ` set ms")
  case True
  then show ?thesis
    by (auto simp: set_prop_def split: if_splits)
next
  case False
  then show ?thesis
    by (auto simp: set_prop_def split: option.splits dest: set_takeWhileD set_dropWhileD)
qed

lemma json_members_set_prop:
  assumes "json_members ms" "json_value v"
  shows "json_members (set_prop k v ms)"
  unfolding json_members_iff
proof
  fix kv
  assume "kv \<in> set (set_prop k v ms)"
  with set_set_prop [of k v ms] have "snd kv = v \<or> kv \<in> set ms"
    by auto
  with assms show "json_value (snd kv)"
    by (auto simp: json_members_iff)
qed

lemma close_value_ok:
  assumes "close_value v st = Some (m', st')" "json_value v" "list_all frame_ok st"
  shows "list_all frame_ok st' \<and> mode_ok m'"
  using assms
  by (cases "(v, st)" rule: close_value.cases)
     (auto simp: json_values_append json_members_set_prop canonical_set_prop)

lemma value_step_ok:
  assumes "value_step st t = Some (m', st')" "valid_token t" "list_all frame_ok st"
  shows "list_all frame_ok st' \<and> mode_ok m'"
  using assms
  by (cases t) (auto dest: close_value_ok simp: canonical_def)

lemma key_step_ok:
  assumes "key_step st t = Some (m', st')" "list_all frame_ok st"
  shows "list_all frame_ok st' \<and> mode_ok m'"
  using assms by (cases "(st, t)" rule: key_step.cases) auto

lemma after_step_ok:
  assumes "after_step st t = Some (m', st')" "list_all frame_ok st"
  shows "list_all frame_ok st' \<and> mode_ok m'"
  using assms
  by (cases "(st, t)" rule: after_step.cases)
     (auto dest!: close_value_ok simp: canonical_built_in_order)

lemma step_ok:
  assumes "step m st t = Some (m', st')" "valid_token t" "list_all frame_ok st"
  shows "list_all frame_ok st' \<and> mode_ok m'"
  using assms
  by (cases m) (auto split: if_splits dest: value_step_ok key_step_ok after_step_ok)

lemma parse_tokens_ok:
  "parse_tokens m st ts = Some v \<Longrightarrow> list_all valid_token ts \<Longrightarrow> list_all frame_ok st \<Longrightarrow>
   mode_ok m \<Longrightarrow> json_value v"
proof (induction ts arbitrary: m st)
  case Nil
  then show ?case by (cases m) simp_all
next
  case (Cons t ts)
  from Cons.prems(1) obtain m' st' where s: "step m st t = Some (m', st')"
    and p: "parse_tokens m' st' ts = Some v"
    by (auto split: option.splits)
  from step_ok [OF s] Cons.prems have "list_all frame_ok st'" "mode_ok m'" by simp_all
  with Cons.IH [OF p] Cons.prems(2) show ?case by simp
qed

lemma JSON_parse_json_value: "JSON_parse s = Some v \<Longrightarrow> json_value v"
  by (auto simp: JSON_parse_def split: option.splits dest: lex_valid intro: parse_tokens_ok)

text \<open>
  So a value that the recovery block accepts is a JSON value unless it comes from
  \<open>parseLLMJson\<close>.
\<close>

lemma recovered_value_origin:
  assumes "is_structure (recover parseLLMJson reply)"
  shows "json_value (recover parseLLMJson reply)
    \<or> parseLLMJson (normalize reply) advanced_options = Some (recover parseLLMJson reply)
    \<or> (\<exists>jsonMatch. json_match (normalize reply) = Some jsonMatch
          \<and> parseLLMJson jsonMatch last_resort_options = Some (recover parseLLMJson reply))"
  using assms
  by (auto simp: recover_def Let_def split: option.splits if_splits
      dest: JSON_parse_json_value)





end
